theory Spec2Isabelle
  imports Main "HOL-Library.Word"
begin

unbundle bit_operations_syntax

section \<open>The work-stealing deque pool of src/pool/deque.c\<close>

subsection \<open>Data model\<close>

text \<open>
  \<open>size_t\<close> is a 64-bit unsigned integer: addition and subtraction wrap, \<open>SIZE_MAX\<close>
  is the all-ones word. A work-item reference (\<open>ABTI_unit *\<close>, \<open>ABT_unit\<close>) is an
  optional address; \<open>None\<close> is the sentinel \<open>ABT_UNIT_NULL\<close>, whose numeric value the
  source never uses.
\<close>

type_synonym size_t = "64 word"

type_synonym ABT_unit = "nat option"

abbreviation ABT_UNIT_NULL :: ABT_unit where
  "ABT_UNIT_NULL \<equiv> None"

definition SIZE_MAX :: size_t where
  "SIZE_MAX = - 1"

definition INITIAL_LENGTH :: size_t where
  "INITIAL_LENGTH = 256"

text \<open>
  \<open>struct data\<close>. The field \<open>mask\<close> of the source is called \<open>mask_f\<close> here, because
  \<open>mask\<close> is a constant of the word library. \<open>unit_array\<close> is the block the pointer
  refers to, one list element per slot. \<open>foreign_lock\<close> is \<open>True\<close> while the mutex
  is held.
\<close>

record data =
  unit_array :: "ABT_unit list"
  array_length :: size_t
  mask_f :: size_t
  head_idx :: size_t
  tail_idx :: size_t
  foreign_lock :: bool

text \<open>
  What an operation can do instead of returning. \<open>Deadlock\<close>: the caller spins on
  the foreign lock while the lock is held, and with no second thread to release it the
  call never returns. \<open>OutOfBounds\<close>: a slot is read or written outside the allocated
  block. \<open>IntOverflow\<close>: an \<open>int\<close> counter is incremented past \<open>INT_MAX\<close>. The last
  two are undefined behaviour in C.
\<close>

datatype fault = Deadlock | OutOfBounds | IntOverflow

text \<open>The two return codes \<open>deque_remove\<close> uses.\<close>

datatype abt_errno = ABT_SUCCESS | ABT_ERR_POOL

subsection \<open>The collaborators outside src\<close>

text \<open>
  Modelled from the spec: \<open>ABTU_malloc\<close>, the allocator, is not under src. It returns
  a block of the requested number of bytes, that is one slot for every
  \<open>sizeof(ABTI_unit *)\<close> = 8 bytes. The source does not initialise the block, so its
  contents are a parameter: \<open>g i\<close> is what slot \<open>i\<close> of the fresh block holds.
\<close>

definition sizeof_ptr :: size_t where
  "sizeof_ptr = 8"

definition ABTU_malloc :: "(nat \<Rightarrow> ABT_unit) \<Rightarrow> size_t \<Rightarrow> ABT_unit list" where
  "ABTU_malloc g bytes = map g [0..<unat bytes div unat sizeof_ptr]"

definition INT_MAX :: nat where
  "INT_MAX = 2147483647"

text \<open>
  Modelled from the spec: \<open>ABTI_mutex_init\<close>, \<open>ABTI_mutex_spinlock\<close> and
  \<open>ABTI_mutex_unlock\<close> are not under src. The spec calls the foreign lock a
  mutual-exclusion primitive and a spinlock: acquiring a free lock takes it, acquiring
  a held lock spins until it is released, releasing frees it.
\<close>

definition ABTI_mutex_spinlock :: "data \<Rightarrow> fault + data" where
  "ABTI_mutex_spinlock m =
     (if foreign_lock m then Inl Deadlock else Inr (m\<lparr>foreign_lock := True\<rparr>))"

definition ABTI_mutex_unlock :: "data \<Rightarrow> data" where
  "ABTI_mutex_unlock m = m\<lparr>foreign_lock := False\<rparr>"

subsection \<open>Slots\<close>

text \<open>\<open>m->unit_array[idx]\<close> is defined only for a slot of the allocated block.\<close>

definition in_block :: "data \<Rightarrow> size_t \<Rightarrow> bool" where
  "in_block m idx = (unat idx < length (unit_array m))"

definition slot :: "data \<Rightarrow> size_t \<Rightarrow> ABT_unit" where
  "slot m idx = unit_array m ! unat idx"

definition set_slot :: "data \<Rightarrow> size_t \<Rightarrow> ABT_unit \<Rightarrow> data" where
  "set_slot m idx unit = m\<lparr>unit_array := (unit_array m)[unat idx := unit]\<rparr>"

subsection \<open>deque_init, deque_get_size\<close>

definition deque_init :: "(nat \<Rightarrow> ABT_unit) \<Rightarrow> data" where
  "deque_init g =
     \<lparr>unit_array = ABTU_malloc g (INITIAL_LENGTH * sizeof_ptr),
      array_length = INITIAL_LENGTH,
      mask_f = INITIAL_LENGTH - 1,
      head_idx = 0,
      tail_idx = 0,
      foreign_lock = False\<rparr>"

definition deque_get_size :: "data \<Rightarrow> size_t" where
  "deque_get_size m = tail_idx m - head_idx m"

subsection \<open>deque_push\<close>

text \<open>
  Lines 66 to 73, the wrap guard. It returns the state and the local variable
  \<open>tail\<close>.
\<close>

definition wrap_guard :: "data \<Rightarrow> fault + (data \<times> size_t)" where
  "wrap_guard m =
     (let tail = tail_idx m in
      if tail = SIZE_MAX then
        (case ABTI_mutex_spinlock m of
           Inl e \<Rightarrow> Inl e
         | Inr m1 \<Rightarrow>
             if tail_idx m1 = SIZE_MAX then
               (let m2 = m1\<lparr>head_idx := head_idx m1 AND mask_f m1\<rparr>;
                    m3 = m2\<lparr>tail_idx := tail_idx m2 AND mask_f m2\<rparr>
                in Inr (ABTI_mutex_unlock m3, tail_idx m3))
             else Inr (ABTI_mutex_unlock m1, tail))
      else Inr (m, tail))"

text \<open>
  Lines 90 to 92, the copy loop of the grow:
  \<open>for (int i = 0; i < m->array_length; i++) new_array[i] = m->unit_array[(i + head) & m->mask]\<close>.
  \<open>n\<close> is \<open>array_length\<close> and \<open>i\<close> the loop counter, an \<open>int\<close> that is never
  negative; \<open>i++\<close> overflows at \<open>INT_MAX\<close>.
\<close>

function copy_loop ::
  "data \<Rightarrow> size_t \<Rightarrow> nat \<Rightarrow> nat \<Rightarrow> ABT_unit list \<Rightarrow> fault + ABT_unit list" where
  "copy_loop m head n i new_array =
     (if i < n then
        (if i < length new_array \<and> in_block m ((of_nat i + head) AND mask_f m) then
           (if i < INT_MAX then
              copy_loop m head n (Suc i)
                (new_array[i := slot m ((of_nat i + head) AND mask_f m)])
            else Inl IntOverflow)
         else Inl OutOfBounds)
      else Inr new_array)"
  by pat_completeness auto
termination
  by (relation "measure (\<lambda>(m, head, n, i, new_array). n - i)") auto

declare copy_loop.simps [simp del]

text \<open>Lines 87 to 99, the grow. It returns the state and the local variable \<open>tail\<close>.\<close>

definition grow :: "(nat \<Rightarrow> ABT_unit) \<Rightarrow> data \<Rightarrow> size_t \<Rightarrow> size_t \<Rightarrow> fault + (data \<times> size_t)" where
  "grow g m head count =
     (case copy_loop m head (unat (array_length m)) 0
             (ABTU_malloc g (push_bit 1 (array_length m) * sizeof_ptr)) of
        Inl e \<Rightarrow> Inl e
      | Inr new_array \<Rightarrow>
          Inr (m\<lparr>unit_array := new_array,
                 head_idx := 0,
                 tail_idx := count,
                 mask_f := push_bit 1 (mask_f m) OR 1\<rparr>, count))"

text \<open>
  \<open>deque_push\<close>. Line 102 of the source is the expression statement
  \<open>m->tail_idx + tail + 1;\<close>, which stores nothing: the slow path leaves \<open>tail_idx\<close>
  as it is.
\<close>

definition deque_push :: "(nat \<Rightarrow> ABT_unit) \<Rightarrow> data \<Rightarrow> ABT_unit \<Rightarrow> fault + data" where
  "deque_push g m0 unit =
     (case wrap_guard m0 of
        Inl e \<Rightarrow> Inl e
      | Inr (m, tail) \<Rightarrow>
          if tail < head_idx m + mask_f m then
            (if in_block m (tail AND mask_f m) then
               Inr ((set_slot m (tail AND mask_f m) unit)\<lparr>tail_idx := tail + 1\<rparr>)
             else Inl OutOfBounds)
          else
            (case ABTI_mutex_spinlock m of
               Inl e \<Rightarrow> Inl e
             | Inr m1 \<Rightarrow>
                 (let head = head_idx m1;
                      count = tail_idx m1 - head_idx m1
                  in case (if count \<ge> mask_f m1 then grow g m1 head count
                           else Inr (m1, tail)) of
                       Inl e \<Rightarrow> Inl e
                     | Inr (m2, tail2) \<Rightarrow>
                         if in_block m2 (tail2 AND mask_f m2) then
                           Inr (ABTI_mutex_unlock (set_slot m2 (tail2 AND mask_f m2) unit))
                         else Inl OutOfBounds)))"

subsection \<open>deque_pop_local\<close>

function deque_pop_local :: "data \<Rightarrow> fault + (ABT_unit \<times> data)" where
  "deque_pop_local m =
     (if head_idx m \<ge> tail_idx m then Inr (ABT_UNIT_NULL, m)
      else
        (let tail = tail_idx m - 1;
             m1 = m\<lparr>tail_idx := tail\<rparr>
         in if head_idx m1 \<le> tail then
              (let idx = tail AND mask_f m1 in
               if in_block m1 idx then
                 (let unit = slot m1 idx in
                  if unit = ABT_UNIT_NULL then deque_pop_local m1
                  else Inr (unit, set_slot m1 idx ABT_UNIT_NULL))
               else Inl OutOfBounds)
            else
              (case ABTI_mutex_spinlock m1 of
                 Inl e \<Rightarrow> Inl e
               | Inr m2 \<Rightarrow>
                   if head_idx m2 \<le> tail then
                     (let idx = tail AND mask_f m2 in
                      if in_block m2 idx then
                        (let unit = slot m2 idx in
                         if unit = ABT_UNIT_NULL then deque_pop_local m2
                         else Inr (unit, ABTI_mutex_unlock (set_slot m2 idx ABT_UNIT_NULL)))
                      else Inl OutOfBounds)
                   else Inr (ABT_UNIT_NULL, ABTI_mutex_unlock (m2\<lparr>tail_idx := tail + 1\<rparr>)))))"
  by pat_completeness auto

termination deque_pop_local
proof (relation "measure (\<lambda>m. unat (tail_idx m))", goal_cases)
  case 1
  show ?case by simp
next
  case (2 m tail m1 idx unit)
  then have "tail_idx m \<noteq> 0" by auto
  then have "unat (tail_idx m - 1) < unat (tail_idx m)"
    by (simp add: unat_minus_one unat_gt_0)
  with 2 show ?case by simp
next
  case (3 m tail m1 m2 idx unit)
  then have "tail_idx m \<noteq> 0" by auto
  then have "unat (tail_idx m - 1) < unat (tail_idx m)"
    by (simp add: unat_minus_one unat_gt_0)
  moreover have "tail_idx m2 = tail_idx m1"
    using 3 by (auto simp: ABTI_mutex_spinlock_def split: if_splits)
  ultimately show ?case using 3 by simp
qed

declare deque_pop_local.simps [simp del]

subsection \<open>deque_pop_steal\<close>

function deque_pop_steal :: "data \<Rightarrow> fault + (ABT_unit \<times> data)" where
  "deque_pop_steal m =
     (if head_idx m \<ge> tail_idx m then Inr (ABT_UNIT_NULL, m)
      else
        (case ABTI_mutex_spinlock m of
           Inl e \<Rightarrow> Inl e
         | Inr m1 \<Rightarrow>
             (let head = head_idx m1;
                  m2 = m1\<lparr>head_idx := head + 1\<rparr>
              in if head < tail_idx m2 then
                   (let idx = head AND mask_f m2 in
                    if in_block m2 idx then
                      (let unit = slot m2 idx in
                       if unit = ABT_UNIT_NULL then deque_pop_steal m2
                       else Inr (unit, ABTI_mutex_unlock (set_slot m2 idx ABT_UNIT_NULL)))
                    else Inl OutOfBounds)
                 else Inr (ABT_UNIT_NULL, ABTI_mutex_unlock (m2\<lparr>head_idx := head\<rparr>)))))"
  by pat_completeness auto

termination deque_pop_steal
  by (relation "measure (\<lambda>m. if foreign_lock m then 0 else 1)")
     (auto simp: ABTI_mutex_spinlock_def split: if_splits)

declare deque_pop_steal.simps [simp del]

subsection \<open>deque_remove\<close>

text \<open>
  Lines 211 to 236, the scan \<open>for (size_t i = m->tail_idx - 2; i >= m->head_idx; i--)\<close>.
  The counter is unsigned, so the loop may run forever; the first argument is fuel, one
  unit per test of the loop condition, and \<open>None\<close> means the fuel ran out before the
  loop returned.
\<close>

fun remove_scan ::
  "nat \<Rightarrow> data \<Rightarrow> ABT_unit \<Rightarrow> size_t \<Rightarrow> (fault + (abt_errno \<times> data)) option" where
  "remove_scan 0 m unit i = None"
| "remove_scan (Suc fuel) m unit i =
     (if i \<ge> head_idx m then
        (if in_block m (i AND mask_f m) then
           (if slot m (i AND mask_f m) = unit then
              (case ABTI_mutex_spinlock m of
                 Inl e \<Rightarrow> Some (Inl e)
               | Inr m1 \<Rightarrow>
                   if slot m1 (i AND mask_f m1) = ABT_UNIT_NULL then
                     Some (Inr (ABT_ERR_POOL, ABTI_mutex_unlock m1))
                   else
                     (let m2 = set_slot m1 (i AND mask_f m1) ABT_UNIT_NULL;
                          m3 = (if i = tail_idx m2 then m2\<lparr>tail_idx := tail_idx m2 - 1\<rparr>
                                else if i = head_idx m2 then m2\<lparr>head_idx := head_idx m2 + 1\<rparr>
                                else m2)
                      in Some (Inr (ABT_SUCCESS, ABTI_mutex_unlock m3))))
            else remove_scan fuel m unit (i - 1))
         else Some (Inl OutOfBounds))
      else Some (Inr (ABT_ERR_POOL, m)))"

definition deque_remove ::
  "nat \<Rightarrow> data \<Rightarrow> ABT_unit \<Rightarrow> (fault + (abt_errno \<times> data)) option" where
  "deque_remove fuel m unit =
     (if in_block m ((tail_idx m - 1) AND mask_f m) then
        (if slot m ((tail_idx m - 1) AND mask_f m) = unit then
           Some (case deque_pop_local m of
                   Inl e \<Rightarrow> Inl e
                 | Inr (u, m') \<Rightarrow>
                     Inr (if u \<noteq> ABT_UNIT_NULL then ABT_SUCCESS else ABT_ERR_POOL, m'))
         else remove_scan fuel m unit (tail_idx m - 2))
      else Some (Inl OutOfBounds))"

subsection \<open>Drivers for the scenarios\<close>

text \<open>
  A sequence of calls by one thread, one after the other; the first call that does not
  return ends the run. \<open>pushes\<close> pushes the items of a list in order, \<open>pops\<close> and
  \<open>steals\<close> call \<open>deque_pop_local\<close> and \<open>deque_pop_steal\<close> a given number of
  times and collect what they return.
\<close>

fun pushes :: "(nat \<Rightarrow> ABT_unit) \<Rightarrow> data \<Rightarrow> ABT_unit list \<Rightarrow> fault + data" where
  "pushes g m [] = Inr m"
| "pushes g m (u # us) =
     (case deque_push g m u of Inl e \<Rightarrow> Inl e | Inr m' \<Rightarrow> pushes g m' us)"

fun pops :: "nat \<Rightarrow> data \<Rightarrow> fault + (ABT_unit list \<times> data)" where
  "pops 0 m = Inr ([], m)"
| "pops (Suc n) m =
     (case deque_pop_local m of
        Inl e \<Rightarrow> Inl e
      | Inr (u, m') \<Rightarrow>
          (case pops n m' of Inl e \<Rightarrow> Inl e | Inr (us, m'') \<Rightarrow> Inr (u # us, m'')))"

fun steals :: "nat \<Rightarrow> data \<Rightarrow> fault + (ABT_unit list \<times> data)" where
  "steals 0 m = Inr ([], m)"
| "steals (Suc n) m =
     (case deque_pop_steal m of
        Inl e \<Rightarrow> Inl e
      | Inr (u, m') \<Rightarrow>
          (case steals n m' of Inl e \<Rightarrow> Inl e | Inr (us, m'') \<Rightarrow> Inr (u # us, m'')))"

subsection \<open>States named in the proofs\<close>

text \<open>
  \<open>fresh_with g us\<close> is the state of a deque that was initialised on a block with
  contents \<open>g\<close> and has since had the items \<open>us\<close> stored in its first slots, with no
  item taken out and no grow. \<open>null_block\<close> is a fresh block in which every slot
  happens to hold \<open>ABT_UNIT_NULL\<close>.
\<close>

definition fresh_with :: "(nat \<Rightarrow> ABT_unit) \<Rightarrow> ABT_unit list \<Rightarrow> data" where
  "fresh_with g us =
     \<lparr>unit_array = us @ map g [length us..<256],
      array_length = 256,
      mask_f = 255,
      head_idx = 0,
      tail_idx = of_nat (length us),
      foreign_lock = False\<rparr>"

definition null_block :: "nat \<Rightarrow> ABT_unit" where
  "null_block i = ABT_UNIT_NULL"

text \<open>
  A state whose tail index is \<open>SIZE_MAX\<close>, with \<open>L = 256\<close>, the lock free and 255 live
  items, in the slots 0 to 254. A fresh deque gets to such a state by 255 pushes followed by
  steals and pushes in turn.
\<close>

definition count_at_max :: data where
  "count_at_max =
     \<lparr>unit_array = map Some [0..<255] @ [ABT_UNIT_NULL],
      array_length = 256,
      mask_f = 255,
      head_idx = SIZE_MAX - 255,
      tail_idx = SIZE_MAX,
      foreign_lock = False\<rparr>"

text \<open>
  \<open>shape m k p n\<close>: the head index is 0, the tail index \<open>k\<close>, the mask \<open>2 ^ p - 1\<close>,
  the block has \<open>n\<close> slots, \<open>array_length\<close> is 256 and the lock is free.
\<close>

definition shape :: "data \<Rightarrow> nat \<Rightarrow> nat \<Rightarrow> nat \<Rightarrow> bool" where
  "shape m k p n \<longleftrightarrow>
     head_idx m = 0 \<and> tail_idx m = of_nat k \<and> mask_f m = 2 ^ p - 1
     \<and> length (unit_array m) = n \<and> array_length m = 256 \<and> \<not> foreign_lock m"

text \<open>
  The states of a fresh deque on an all-NULL block after the items 0 to 255 were pushed,
  after item 256 was pushed as well, and after two local pops that follow.
\<close>

definition after_256_pushes :: data where
  "after_256_pushes =
     \<lparr>unit_array = map Some [0..<255] @ Some 255 # map null_block [256..<512],
      array_length = 256, mask_f = 511, head_idx = 0, tail_idx = 255,
      foreign_lock = False\<rparr>"

definition after_257_pushes :: data where
  "after_257_pushes =
     \<lparr>unit_array = map Some [0..<255] @ Some 256 # map null_block [256..<512],
      array_length = 256, mask_f = 511, head_idx = 0, tail_idx = 256,
      foreign_lock = False\<rparr>"

definition after_two_pops :: data where
  "after_two_pops =
     \<lparr>unit_array = map Some [0..<254] @ ABT_UNIT_NULL # ABT_UNIT_NULL
                      # map null_block [256..<512],
      array_length = 256, mask_f = 511, head_idx = 0, tail_idx = 254,
      foreign_lock = False\<rparr>"

section \<open>Auxiliary facts\<close>

subsection \<open>Words\<close>

lemma pow_small: "p < 64 \<Longrightarrow> (2::nat) ^ p < 2 ^ 64"
  by (rule power_strict_increasing) simp_all

lemma small_unat: "k < 2 ^ 64 \<Longrightarrow> unat (of_nat k :: size_t) = k"
  by (simp add: unat_of_nat)

lemma small_less: "k < n \<Longrightarrow> n < 2 ^ 64 \<Longrightarrow> (of_nat k :: size_t) < of_nat n"
  by (simp add: word_less_nat_alt small_unat)

lemma small_and_mask:
  assumes "k < 2 ^ p" "p < 64"
  shows "(of_nat k :: size_t) AND (2 ^ p - 1) = of_nat k"
proof -
  have "k < 2 ^ 64" using assms(1) pow_small [OF assms(2)] by (rule less_trans)
  then have "unat (of_nat k :: size_t) = k" by (rule small_unat)
  then have "uint (of_nat k :: size_t) = int k" by (simp add: uint_nat)
  moreover have "int k < 2 ^ p" using assms(1) by (metis of_nat_less_iff of_nat_numeral of_nat_power)
  ultimately have "(of_nat k :: size_t) AND mask p = of_nat k" by (simp add: mask_eq_iff)
  then show ?thesis by (simp add: mask_eq_decr_exp)
qed

lemma and_255: "k < 256 \<Longrightarrow> (of_nat k :: size_t) AND 255 = of_nat k"
  using small_and_mask [of k 8] by simp

lemma push_fast_path:
  "tail_idx m \<noteq> SIZE_MAX \<Longrightarrow> tail_idx m < head_idx m + mask_f m \<Longrightarrow>
   in_block m (tail_idx m AND mask_f m) \<Longrightarrow>
   deque_push g m unit =
     Inr (m\<lparr>unit_array := (unit_array m)[unat (tail_idx m AND mask_f m) := unit],
            tail_idx := tail_idx m + 1\<rparr>)"
  by (simp add: deque_push_def wrap_guard_def set_slot_def)

lemma init_fresh: "deque_init g = fresh_with g []"
  by (simp add: deque_init_def fresh_with_def ABTU_malloc_def INITIAL_LENGTH_def sizeof_ptr_def)

lemma push_fresh_with:
  assumes "length us < 255"
  shows "deque_push g (fresh_with g us) u = Inr (fresh_with g (us @ [u]))"
proof -
  let ?k = "length us"
  let ?m = "fresh_with g us"
  have k64: "?k < 2 ^ 64" using assms by simp
  have t: "tail_idx ?m = of_nat ?k" by (simp add: fresh_with_def)
  have idx: "tail_idx ?m AND mask_f ?m = of_nat ?k" using assms by (simp add: fresh_with_def and_255)
  have lt: "(of_nat ?k :: size_t) < 255" using small_less [of ?k 255] assms by simp
  have a: "tail_idx ?m \<noteq> SIZE_MAX"
  proof
    assume "tail_idx ?m = SIZE_MAX"
    then have "(- 1 :: size_t) < 255" using lt by (simp add: t SIZE_MAX_def)
    then show False by simp
  qed
  have b: "tail_idx ?m < head_idx ?m + mask_f ?m"
    using lt by (simp add: fresh_with_def)
  have c: "in_block ?m (tail_idx ?m AND mask_f ?m)"
    using assms by (simp add: idx in_block_def small_unat [OF k64]) (simp add: fresh_with_def)
  have upt: "[?k..<256] = ?k # [Suc ?k..<256]" using assms by (simp add: upt_conv_Cons)
  have "deque_push g ?m u =
     Inr (?m\<lparr>unit_array := (unit_array ?m)[unat (tail_idx ?m AND mask_f ?m) := u],
            tail_idx := tail_idx ?m + 1\<rparr>)"
    using a b c by (rule push_fast_path)
  also have "\<dots> = Inr (fresh_with g (us @ [u]))"
    by (simp add: idx small_unat [OF k64]) (simp add: fresh_with_def upt)
  finally show ?thesis .
qed

lemma pushes_fresh_with:
  "length us + length vs \<le> 255 \<Longrightarrow>
   pushes g (fresh_with g us) vs = Inr (fresh_with g (us @ vs))"
proof (induction vs arbitrary: us)
  case Nil
  then show ?case by simp
next
  case (Cons v vs)
  then have "length us < 255" by simp
  then have "deque_push g (fresh_with g us) v = Inr (fresh_with g (us @ [v]))"
    by (rule push_fresh_with)
  moreover have "pushes g (fresh_with g (us @ [v])) vs = Inr (fresh_with g ((us @ [v]) @ vs))"
    using Cons.prems by (intro Cons.IH) simp
  ultimately show ?case by simp
qed

lemma copy_loop_result:
  "i \<le> n \<Longrightarrow> n \<le> length new_array \<Longrightarrow> n \<le> INT_MAX \<Longrightarrow>
   (\<And>j. j < n \<Longrightarrow> in_block m ((of_nat j + head) AND mask_f m)) \<Longrightarrow>
   copy_loop m head n i new_array =
     Inr (take i new_array
          @ map (\<lambda>j. slot m ((of_nat j + head) AND mask_f m)) [i..<n]
          @ drop n new_array)"
proof (induction m head n i new_array rule: copy_loop.induct)
  case (1 m head n i new_array)
  show ?case
  proof (cases "i < n")
    case False
    with 1 show ?thesis by (simp add: copy_loop.simps)
  next
    case True
    let ?v = "slot m ((of_nat i + head) AND mask_f m)"
    have il: "i < length new_array" using True 1 by simp
    have ib: "in_block m ((of_nat i + head) AND mask_f m)" using True 1 by simp
    have im: "i < INT_MAX" using True 1 by simp
    have "copy_loop m head n i new_array = copy_loop m head n (Suc i) (new_array[i := ?v])"
      using True il ib im by (subst copy_loop.simps) simp
    also have "\<dots> = Inr (take (Suc i) (new_array[i := ?v])
          @ map (\<lambda>j. slot m ((of_nat j + head) AND mask_f m)) [Suc i..<n]
          @ drop n (new_array[i := ?v]))"
      using True il ib im 1 by (intro "1.IH") simp_all
    also have "take (Suc i) (new_array[i := ?v]) = take i new_array @ [?v]"
      using il by (simp add: take_Suc_conv_app_nth)
    also have "drop n (new_array[i := ?v]) = drop n new_array"
      using True by simp
    finally show ?thesis using True by (simp add: upt_conv_Cons)
  qed
qed


lemma fresh_slots:
  assumes "length us = 255" "j < 256"
  shows "slot (fresh_with g us\<lparr>foreign_lock := True\<rparr>) ((of_nat j + 0) AND 255) = (us @ [g 255]) ! j"
proof -
  have "[255..<256] = [255::nat]" by (simp add: upt_conv_Cons)
  then show ?thesis using assms
    by (simp add: slot_def and_255 small_unat fresh_with_def)
qed

lemma grow_fresh_full:
  assumes "length us = 255"
  shows "grow g (fresh_with g us\<lparr>foreign_lock := True\<rparr>) 0 255 =
     Inr (fresh_with g us
            \<lparr>foreign_lock := True,
             unit_array := us @ g 255 # map g [256..<512],
             head_idx := 0, tail_idx := 255, mask_f := 511\<rparr>, 255)"
proof -
  let ?m = "fresh_with g us"
  let ?m1 = "?m\<lparr>foreign_lock := True\<rparr>"
  let ?new = "ABTU_malloc g (push_bit 1 (array_length ?m1) * sizeof_ptr)"
  let ?blk = "map g [0..<512]"
  have new: "?new = ?blk"
    by (simp add: ABTU_malloc_def fresh_with_def sizeof_ptr_def)
  have inb: "\<And>j. j < 256 \<Longrightarrow> in_block ?m1 ((of_nat j + 0) AND mask_f ?m1)"
    using assms by (simp add: in_block_def fresh_with_def and_255 small_unat)
  have "copy_loop ?m1 0 256 0 ?blk =
     Inr (take 0 ?blk
          @ map (\<lambda>j. slot ?m1 ((of_nat j + 0) AND mask_f ?m1)) [0..<256]
          @ drop 256 ?blk)"
    using inb by (intro copy_loop_result) (simp_all add: INT_MAX_def)
  also have "map (\<lambda>j. slot ?m1 ((of_nat j + 0) AND mask_f ?m1)) [0..<256]
               = map (\<lambda>j. (us @ [g 255]) ! j) [0..<256]"
    using fresh_slots [OF assms, of _ g] by (intro map_cong) (simp_all add: fresh_with_def)
  also have "\<dots> = us @ [g 255]"
    using assms map_nth [of "us @ [g 255]"] by simp
  also have "drop 256 ?blk = map g [256..<512]"
    by (simp add: drop_map)
  finally have c: "copy_loop ?m1 0 256 0 ?new = Inr (us @ g 255 # map g [256..<512])"
    unfolding new by simp
  have al: "unat (array_length ?m1) = 256" by (simp add: fresh_with_def)
  have mk: "push_bit 1 (mask_f ?m1) OR 1 = 511" by (simp add: fresh_with_def)
  show ?thesis unfolding grow_def al mk c by simp
qed

lemma push_fresh_full:
  assumes "length us = 255"
  shows "deque_push g (fresh_with g us) u =
     Inr \<lparr>unit_array = us @ u # map g [256..<512],
          array_length = 256,
          mask_f = 511,
          head_idx = 0,
          tail_idx = 255,
          foreign_lock = False\<rparr>"
proof -
  let ?m = "fresh_with g us"
  let ?m1 = "?m\<lparr>foreign_lock := True\<rparr>"
  have w: "wrap_guard ?m = Inr (?m, 255)"
    using assms by (simp add: wrap_guard_def fresh_with_def SIZE_MAX_def)
  have l: "ABTI_mutex_spinlock ?m = Inr ?m1"
    by (simp add: ABTI_mutex_spinlock_def fresh_with_def)
  have f: "head_idx ?m = 0" "mask_f ?m = 255" "tail_idx ?m = 255"
    using assms by (simp_all add: fresh_with_def)
  have "deque_push g ?m u =
     Inr (ABTI_mutex_unlock (set_slot
       (?m1\<lparr>unit_array := us @ g 255 # map g [256..<512],
                head_idx := 0, tail_idx := 255, mask_f := 511\<rparr>) 255 u))"
    using assms
    by (simp add: deque_push_def w l f grow_fresh_full in_block_def del: upt_rec_numeral)
  also have "\<dots> = Inr \<lparr>unit_array = us @ u # map g [256..<512],
          array_length = 256, mask_f = 511, head_idx = 0, tail_idx = 255,
          foreign_lock = False\<rparr>"
    using list_update_length [of us "g 255" "map g [256..<512]" u]
    by (simp add: set_slot_def ABTI_mutex_unlock_def fresh_with_def assms
          del: upt_rec_numeral)
  finally show ?thesis .
qed

lemma pop_local_top:
  assumes "length xs < 2 ^ p" "p < 64"
  shows "deque_pop_local
           \<lparr>unit_array = xs @ Some a # rest, array_length = al, mask_f = 2 ^ p - 1,
            head_idx = 0, tail_idx = of_nat (Suc (length xs)), foreign_lock = lk\<rparr>
         = Inr (Some a,
           \<lparr>unit_array = xs @ ABT_UNIT_NULL # rest, array_length = al, mask_f = 2 ^ p - 1,
            head_idx = 0, tail_idx = of_nat (length xs), foreign_lock = lk\<rparr>)"
proof -
  let ?k = "length xs"
  have k64: "?k < 2 ^ 64" using assms(1) pow_small [OF assms(2)] by (rule less_trans)
  have "Suc ?k \<le> 2 ^ p" using assms(1) by simp
  also have "\<dots> < 2 ^ 64" using assms(2) by (rule pow_small)
  finally have "unat (of_nat (Suc ?k) :: size_t) = Suc ?k" by (rule small_unat)
  then have nz: "(of_nat (Suc ?k) :: size_t) \<noteq> 0" by (metis nat.simps(3) unat_0)
  have nz': "(1 + of_nat ?k :: size_t) \<noteq> 0" using nz by simp
  have idx: "(of_nat ?k :: size_t) AND (2 ^ p - 1) = of_nat ?k"
    using assms by (rule small_and_mask)
  show ?thesis
    by (subst deque_pop_local.simps)
       (simp add: nz' idx in_block_def slot_def set_slot_def small_unat [OF k64]
         Let_def)
qed

lemma pops_all:
  assumes "length ys \<le> 2 ^ p" "p < 64"
  shows "pops (length ys)
           \<lparr>unit_array = map Some ys @ rest, array_length = al, mask_f = 2 ^ p - 1,
            head_idx = 0, tail_idx = of_nat (length ys), foreign_lock = lk\<rparr>
         = Inr (rev (map Some ys),
           \<lparr>unit_array = replicate (length ys) ABT_UNIT_NULL @ rest, array_length = al,
            mask_f = 2 ^ p - 1, head_idx = 0, tail_idx = 0, foreign_lock = lk\<rparr>)"
  using assms(1)
proof (induction ys arbitrary: rest rule: rev_induct)
  case Nil
  show ?case by simp
next
  case (snoc y ys)
  have lt: "length (map Some ys) < 2 ^ p" using snoc.prems by simp
  have le: "length ys \<le> 2 ^ p" using snoc.prems by simp
  have pop: "deque_pop_local
           \<lparr>unit_array = map Some ys @ Some y # rest, array_length = al, mask_f = 2 ^ p - 1,
            head_idx = 0, tail_idx = of_nat (Suc (length (map Some ys))), foreign_lock = lk\<rparr>
         = Inr (Some y,
           \<lparr>unit_array = map Some ys @ ABT_UNIT_NULL # rest, array_length = al,
            mask_f = 2 ^ p - 1,
            head_idx = 0, tail_idx = of_nat (length (map Some ys)), foreign_lock = lk\<rparr>)"
    using lt assms(2) by (rule pop_local_top)
  show ?case
    using pop snoc.IH [OF le, of "ABT_UNIT_NULL # rest"]
    by (simp add: replicate_app_Cons_same)
qed

lemma pop_steal_front:
  assumes "length pre < n" "n < 2 ^ 64" "length pre < 2 ^ p" "p < 64"
  shows "deque_pop_steal
           \<lparr>unit_array = pre @ Some a # rest, array_length = al, mask_f = 2 ^ p - 1,
            head_idx = of_nat (length pre), tail_idx = of_nat n, foreign_lock = False\<rparr>
         = Inr (Some a,
           \<lparr>unit_array = pre @ ABT_UNIT_NULL # rest, array_length = al, mask_f = 2 ^ p - 1,
            head_idx = of_nat (Suc (length pre)), tail_idx = of_nat n, foreign_lock = False\<rparr>)"
proof -
  let ?k = "length pre"
  have k64: "?k < 2 ^ 64" using assms(1,2) by (rule less_trans)
  have lt: "(of_nat ?k :: size_t) < of_nat n" using assms(1,2) by (rule small_less)
  have idx: "(of_nat ?k :: size_t) AND (2 ^ p - 1) = of_nat ?k"
    using assms(3,4) by (rule small_and_mask)
  show ?thesis
    using lt
    by (subst deque_pop_steal.simps)
       (simp add: idx in_block_def slot_def set_slot_def small_unat [OF k64]
          ABTI_mutex_spinlock_def ABTI_mutex_unlock_def Let_def
          add.commute)
qed

lemma steals_all:
  assumes "n < 2 ^ 64" "n \<le> 2 ^ p" "p < 64"
  shows "length pre + length ys \<le> n \<Longrightarrow>
         steals (length ys)
           \<lparr>unit_array = pre @ map Some ys @ rest, array_length = al, mask_f = 2 ^ p - 1,
            head_idx = of_nat (length pre), tail_idx = of_nat n, foreign_lock = False\<rparr>
         = Inr (map Some ys,
           \<lparr>unit_array = pre @ replicate (length ys) ABT_UNIT_NULL @ rest, array_length = al,
            mask_f = 2 ^ p - 1, head_idx = of_nat (length pre + length ys),
            tail_idx = of_nat n, foreign_lock = False\<rparr>)"
proof (induction ys arbitrary: pre)
  case Nil
  show ?case by simp
next
  case (Cons y ys)
  have a: "length pre < n" using Cons.prems by simp
  have b: "length pre < 2 ^ p" using a assms(2) by simp
  have c: "length (pre @ [ABT_UNIT_NULL]) + length ys \<le> n" using Cons.prems by simp
  show ?case
    using pop_steal_front [OF a assms(1) b assms(3), of y "map Some ys @ rest" al]
          Cons.IH [OF c]
    by (simp add: replicate_app_Cons_same)
qed

lemma pop_steal_empty:
  "head_idx m \<ge> tail_idx m \<Longrightarrow> deque_pop_steal m = Inr (ABT_UNIT_NULL, m)"
  by (simp add: deque_pop_steal.simps)

lemma pop_local_none:
  "head_idx m \<ge> tail_idx m \<Longrightarrow> deque_pop_local m = Inr (ABT_UNIT_NULL, m)"
  by (simp add: deque_pop_local.simps)

lemma pops_add:
  "pops n m = Inr (us, m') \<Longrightarrow> pops k m' = Inr (vs, m'') \<Longrightarrow>
   pops (n + k) m = Inr (us @ vs, m'')"
  by (induction n arbitrary: m us) (auto split: sum.splits prod.splits)

lemma steals_add:
  "steals n m = Inr (us, m') \<Longrightarrow> steals k m' = Inr (vs, m'') \<Longrightarrow>
   steals (n + k) m = Inr (us @ vs, m'')"
  by (induction n arbitrary: m us) (auto split: sum.splits prod.splits)

lemma pushes_append:
  "pushes g m us = Inr m' \<Longrightarrow> pushes g m (us @ vs) = pushes g m' vs"
  by (induction us arbitrary: m) (auto split: sum.splits)

lemma pushes_255:
  "pushes g (deque_init g) (map Some [0..<255]) = Inr (fresh_with g (map Some [0..<255]))"
  using pushes_fresh_with [of "[]" "map Some [0..<255]" g] 
  by (simp add: init_fresh del: upt_rec_numeral)

lemma pushes_256:
  "pushes g (deque_init g) (map Some [0..<256]) =
     Inr \<lparr>unit_array = map Some [0..<255] @ Some 255 # map g [256..<512],
          array_length = 256, mask_f = 511, head_idx = 0, tail_idx = 255,
          foreign_lock = False\<rparr>"
proof -
  have "[0..<256] = [0..<255] @ [255::nat]"
    using upt_Suc_append [of 0 255] by (simp del: upt_rec_numeral upt_Suc)
  then have "pushes g (deque_init g) (map Some [0..<256])
       = pushes g (fresh_with g (map Some [0..<255])) [Some 255]"
    using pushes_append [OF pushes_255, of g "[Some 255]"] by (simp del: upt_rec_numeral)
  also have "\<dots> = Inr \<lparr>unit_array = map Some [0..<255] @ Some 255 # map g [256..<512],
          array_length = 256, mask_f = 511, head_idx = 0, tail_idx = 255,
          foreign_lock = False\<rparr>"
    using push_fresh_full [of "map Some [0..<255]" g "Some 255"]
    by (simp del: upt_rec_numeral)
  finally show ?thesis .
qed

lemma remove_scan_no_exit:
  assumes "head_idx m = 0"
    and "\<And>idx. in_block m (idx AND mask_f m)"
    and "\<And>idx. slot m (idx AND mask_f m) \<noteq> unit"
  shows "remove_scan fuel m unit i = None"
  using assms by (induction fuel arbitrary: i) simp_all

lemma steals_add_fault:
  "steals n m = Inr (us, m') \<Longrightarrow> deque_pop_steal m' = Inl e \<Longrightarrow>
   steals (Suc (n + k)) m = Inl e"
proof (induction n arbitrary: m us)
  case 0
  then show ?case by simp
next
  case (Suc n)
  from Suc.prems(1) obtain u m1 us' where
    p: "deque_pop_steal m = Inr (u, m1)" and r: "steals n m1 = Inr (us', m')"
    by (auto split: sum.splits prod.splits)
  have "steals (Suc (n + k)) m1 = Inl e" using r Suc.prems(2) by (rule Suc.IH)
  then show ?case using p by simp
qed

lemma and_split: "(c AND m) + (NOT c AND m) = (m::size_t)"
proof -
  have "(c AND m) AND (NOT c AND m) = 0"
    by (rule bit_eqI) (simp add: bit_simps)
  then have "(c AND m) + (NOT c AND m) = (c AND m) OR (NOT c AND m)"
    by (rule disjunctive_add_eq_or)
  also have "\<dots> = m"
    by (rule bit_eqI) (auto simp add: bit_simps)
  finally show ?thesis .
qed

lemma unat_pow_mask:
  assumes "p < 64"
  shows "unat ((2::size_t) ^ p - 1) = 2 ^ p - 1" and "unat ((2::size_t) ^ p) = 2 ^ p"
proof -
  have nz: "(2::size_t) ^ p \<noteq> 0" using assms by simp
  have "unat (of_nat (2 ^ p) :: size_t) = 2 ^ p"
    using pow_small [OF assms] by (rule small_unat)
  then show b: "unat ((2::size_t) ^ p) = 2 ^ p" by simp
  show "unat ((2::size_t) ^ p - 1) = 2 ^ p - 1"
    using unat_minus_one [OF nz] b by simp
qed

lemma le_mask_and:
  assumes "p < 64" "c \<le> 2 ^ p - 1" shows "(c::size_t) AND (2 ^ p - 1) = c"
proof -
  have "unat c \<le> unat ((2::size_t) ^ p - 1)" using assms(2) by (simp add: word_le_nat_alt)
  also have "\<dots> = 2 ^ p - 1" using assms(1) by (rule unat_pow_mask)
  also have "\<dots> < 2 ^ p" by simp
  also have "\<dots> = unat ((2::size_t) ^ p)" using unat_pow_mask(2) [OF assms(1)] by simp
  finally have "unat c < unat ((2::size_t) ^ p)" .
  then have "c < 2 ^ p" by (simp add: word_less_nat_alt)
  then have "c AND mask p = c" by (rule less_mask_eq)
  then show ?thesis by (simp add: mask_eq_decr_exp)
qed

lemma collapse_diff:
  assumes "p < 64" "(- 1) - h \<le> (2 ^ p - 1 :: size_t)"
  shows "((- 1) AND (2 ^ p - 1)) - (h AND (2 ^ p - 1)) = (- 1) - h"
proof -
  define c where "c = (- 1) - h"
  define M :: size_t where "M = 2 ^ p - 1"
  have h: "h = NOT c" unfolding c_def by (simp add: not_eq_complement)
  have "(c AND M) + (NOT c AND M) = M" by (rule and_split)
  then have "M - (NOT c AND M) = c AND M" by (metis add_diff_cancel_right')
  also have "\<dots> = c" using assms unfolding c_def M_def by (rule le_mask_and)
  finally have "M - (h AND M) = c" unfolding h .
  then show ?thesis unfolding c_def M_def by simp
qed

lemma wrap_guard_at_max:
  assumes "\<not> foreign_lock m" "tail_idx m = SIZE_MAX"
  shows "wrap_guard m =
     Inr (m\<lparr>head_idx := head_idx m AND mask_f m, tail_idx := tail_idx m AND mask_f m\<rparr>,
          tail_idx m AND mask_f m)"
  using assms
  by (cases m) (simp add: wrap_guard_def ABTI_mutex_spinlock_def ABTI_mutex_unlock_def)

lemma upt_254_255: "[0..<255] = [0..<254] @ [254::nat]"
  using upt_Suc_append [of 0 254] by (simp del: upt_rec_numeral upt_Suc)

lemma push_after_guard:
  assumes "wrap_guard m0 = Inr (m, tail_idx m)" "tail_idx m \<noteq> SIZE_MAX"
  shows "deque_push g m0 u = deque_push g m u"
proof -
  have "wrap_guard m = Inr (m, tail_idx m)"
    using assms(2) by (simp add: wrap_guard_def)
  then show ?thesis using assms(1) by (simp add: deque_push_def)
qed

lemma wrap_guard_keeps_count:
  assumes lock: "\<not> foreign_lock m"
    and tmax: "tail_idx m = SIZE_MAX"
    and p: "p < 64"
    and msk: "mask_f m = 2 ^ p - 1"
    and cnt: "tail_idx m - head_idx m \<le> mask_f m"
  shows "wrap_guard m =
           Inr (m\<lparr>head_idx := head_idx m AND mask_f m,
                  tail_idx := tail_idx m AND mask_f m\<rparr>, tail_idx m AND mask_f m)"
    and "(tail_idx m AND mask_f m) - (head_idx m AND mask_f m) = tail_idx m - head_idx m"
    and "tail_idx m AND mask_f m = mask_f m"
proof -
  show "wrap_guard m =
           Inr (m\<lparr>head_idx := head_idx m AND mask_f m,
                  tail_idx := tail_idx m AND mask_f m\<rparr>, tail_idx m AND mask_f m)"
    using lock tmax by (rule wrap_guard_at_max)
  show "(tail_idx m AND mask_f m) - (head_idx m AND mask_f m) = tail_idx m - head_idx m"
    using collapse_diff [OF p, of "head_idx m"] cnt
    by (simp add: tmax SIZE_MAX_def msk)
  show "tail_idx m AND mask_f m = mask_f m"
    by (simp add: tmax SIZE_MAX_def)
qed

subsection \<open>Pushes beyond the first grow\<close>

lemma unat_pow_mask_of_nat:
  assumes "p < 64"
  shows "(of_nat (2 ^ p - 1) :: size_t) = 2 ^ p - 1"
  by (simp add: of_nat_diff)

lemma push_fast_shape:
  assumes s: "shape m k p n" and p: "p < 64" and k: "k < 2 ^ p - 1" and n: "k < n"
  shows "\<exists>m'. deque_push g m u = Inr m' \<and> shape m' (Suc k) p n"
proof -
  have f: "head_idx m = 0" "tail_idx m = of_nat k" "mask_f m = 2 ^ p - 1"
      "length (unit_array m) = n" "array_length m = 256" "\<not> foreign_lock m"
    using s by (simp_all add: shape_def)
  have k2: "k < 2 ^ p" using k by simp
  have k64: "k < 2 ^ 64" using k2 pow_small [OF p] by (rule less_trans)
  have m64: "2 ^ p - 1 < (2::nat) ^ 64" using pow_small [OF p] by simp
  have idx: "(of_nat k :: size_t) AND (2 ^ p - 1) = of_nat k"
    using k2 p by (rule small_and_mask)
  have lt: "(of_nat k :: size_t) < 2 ^ p - 1"
    using small_less [OF k m64] by (simp add: unat_pow_mask_of_nat [OF p])
  have a: "tail_idx m \<noteq> SIZE_MAX"
  proof
    assume "tail_idx m = SIZE_MAX"
    then have "(- 1 :: size_t) < 2 ^ p - 1" using lt by (simp add: f SIZE_MAX_def)
    moreover have "(2 ^ p - 1 :: size_t) \<le> - 1" by (rule word_n1_ge)
    ultimately show False by (simp add: not_less [symmetric] del: word_n1_ge)
  qed
  have b: "tail_idx m < head_idx m + mask_f m" using lt by (simp add: f)
  have c: "in_block m (tail_idx m AND mask_f m)"
    using n by (simp add: f idx in_block_def small_unat [OF k64])
  have "deque_push g m u =
     Inr (m\<lparr>unit_array := (unit_array m)[unat (tail_idx m AND mask_f m) := u],
            tail_idx := tail_idx m + 1\<rparr>)"
    using a b c by (rule push_fast_path)
  moreover have "shape (m\<lparr>unit_array := (unit_array m)[unat (tail_idx m AND mask_f m) := u],
            tail_idx := tail_idx m + 1\<rparr>) (Suc k) p n"
    by (simp add: shape_def f)
  ultimately show ?thesis by blast
qed

lemma pushes_fast_shape:
  assumes p: "p < 64"
  shows "shape m k p n \<Longrightarrow> k + length vs \<le> 2 ^ p - 1 \<Longrightarrow> k + length vs \<le> n \<Longrightarrow>
         \<exists>m'. pushes g m vs = Inr m' \<and> shape m' (k + length vs) p n"
proof (induction vs arbitrary: m k)
  case Nil
  then show ?case by simp
next
  case (Cons v vs)
  have "k < 2 ^ p - 1" "k < n" using Cons.prems by simp_all
  with Cons.prems(1) p obtain m1 where
    m1: "deque_push g m v = Inr m1" "shape m1 (Suc k) p n"
    using push_fast_shape by blast
  have "\<exists>m'. pushes g m1 vs = Inr m' \<and> shape m' (Suc k + length vs) p n"
    using m1(2) Cons.prems by (intro Cons.IH) simp_all
  then show ?case using m1(1) by simp
qed

lemma push_grow_511:
  assumes s: "shape m 511 9 512"
  shows "\<exists>m'. deque_push g m u = Inr m' \<and> shape m' 511 10 512"
proof -
  have f: "head_idx m = 0" "tail_idx m = 511" "mask_f m = 511"
      "length (unit_array m) = 512" "array_length m = 256" "\<not> foreign_lock m"
    using s by (simp_all add: shape_def)
  let ?m1 = "m\<lparr>foreign_lock := True\<rparr>"
  let ?blk = "map g [0..<512]"
  have w: "wrap_guard m = Inr (m, 511)" by (simp add: wrap_guard_def f SIZE_MAX_def)
  have l: "ABTI_mutex_spinlock m = Inr ?m1" by (simp add: ABTI_mutex_spinlock_def f)
  have new: "ABTU_malloc g (push_bit 1 (array_length ?m1) * sizeof_ptr) = ?blk"
    by (simp add: ABTU_malloc_def f sizeof_ptr_def)
  have and511: "(of_nat j :: size_t) AND 511 = of_nat j" if "j < 256" for j
    using small_and_mask [of j 9] that by simp
  have inb: "\<And>j. j < 256 \<Longrightarrow> in_block ?m1 ((of_nat j + 0) AND mask_f ?m1)"
    by (simp add: in_block_def f and511 small_unat)
  obtain xs where c: "copy_loop ?m1 0 256 0 ?blk = Inr xs" and lx: "length xs = 512"
  proof
    show "copy_loop ?m1 0 256 0 ?blk =
     Inr (take 0 ?blk
          @ map (\<lambda>j. slot ?m1 ((of_nat j + 0) AND mask_f ?m1)) [0..<256]
          @ drop 256 ?blk)"
      using inb by (intro copy_loop_result) (simp_all add: INT_MAX_def)
    show "length (take 0 ?blk
          @ map (\<lambda>j. slot ?m1 ((of_nat j + 0) AND mask_f ?m1)) [0..<256]
          @ drop 256 ?blk) = 512"
      by simp
  qed
  have al: "unat (array_length ?m1) = 256" by (simp add: f)
  have mk: "push_bit 1 (mask_f ?m1) OR 1 = 1023" by (simp add: f)
  have g: "grow g ?m1 0 511 =
     Inr (?m1\<lparr>unit_array := xs, head_idx := 0, tail_idx := 511, mask_f := 1023\<rparr>, 511)"
    unfolding grow_def al mk new c by simp
  have "deque_push g m u =
     Inr (ABTI_mutex_unlock (set_slot
       (?m1\<lparr>unit_array := xs, head_idx := 0, tail_idx := 511, mask_f := 1023\<rparr>) 511 u))"
    by (simp add: deque_push_def w l f g in_block_def lx)
  moreover have "shape (ABTI_mutex_unlock (set_slot
       (?m1\<lparr>unit_array := xs, head_idx := 0, tail_idx := 511, mask_f := 1023\<rparr>) 511 u))
       511 10 512"
    by (simp add: shape_def ABTI_mutex_unlock_def set_slot_def lx f)
  ultimately show ?thesis by blast
qed

lemma upt_514: "[0..<514] = [0..<256] @ [256..<512] @ [512, 513::nat]"
proof -
  have a: "[0..<512] = [0..<256] @ [256..<512::nat]"
    using upt_add_eq_append [of 0 256 256] by (simp del: upt_rec_numeral)
  have b: "[0..<514] = [0..<512] @ [512..<514::nat]"
    using upt_add_eq_append [of 0 512 2] by (simp del: upt_rec_numeral)
  have c: "[512..<514] = [512, 513::nat]" by (simp add: upt_rec)
  show ?thesis unfolding b c a by simp
qed

subsection \<open>Round trips below the first grow\<close>

text \<open>
  Up to 255 items are pushed on the fast path. For such a run of pushes of non-NULL
  items into a fresh deque, local pops return the items in reverse push order and steals
  return them in push order, and the call after the last item returns \<open>ABT_UNIT_NULL\<close>.
\<close>

lemma lifo_below_grow:
  assumes "length ys \<le> 255"
  shows "\<exists>m m'. pushes g (deque_init g) (map Some ys) = Inr m
     \<and> pops (Suc (length ys)) m = Inr (rev (map Some ys) @ [ABT_UNIT_NULL], m')"
proof -
  let ?rest = "map g [length ys..<256]"
  let ?m = "fresh_with g (map Some ys)"
  let ?e = "\<lparr>unit_array = replicate (length ys) ABT_UNIT_NULL @ ?rest, array_length = 256,
            mask_f = 255, head_idx = 0, tail_idx = 0, foreign_lock = False\<rparr>"
  have a: "pushes g (deque_init g) (map Some ys) = Inr ?m"
    using pushes_fresh_with [of "[]" "map Some ys" g] assms by (simp add: init_fresh)
  have "length ys \<le> 2 ^ 8" using assms by simp
  then have b: "pops (length ys) ?m = Inr (rev (map Some ys), ?e)"
    using pops_all [of ys 8 ?rest 256 False] by (simp add: fresh_with_def)
  have "deque_pop_local ?e = Inr (ABT_UNIT_NULL, ?e)"
    by (rule pop_local_none) simp
  then have c: "pops 1 ?e = Inr ([ABT_UNIT_NULL], ?e)" by simp
  have "pops (length ys + 1) ?m = Inr (rev (map Some ys) @ [ABT_UNIT_NULL], ?e)"
    using b c by (rule pops_add)
  with a show ?thesis by auto
qed

lemma fifo_below_grow:
  assumes "length ys \<le> 255"
  shows "\<exists>m m'. pushes g (deque_init g) (map Some ys) = Inr m
     \<and> steals (Suc (length ys)) m = Inr (map Some ys @ [ABT_UNIT_NULL], m')"
proof -
  let ?rest = "map g [length ys..<256]"
  let ?m = "fresh_with g (map Some ys)"
  let ?e = "\<lparr>unit_array = replicate (length ys) ABT_UNIT_NULL @ ?rest, array_length = 256,
            mask_f = 255, head_idx = of_nat (length ys), tail_idx = of_nat (length ys),
            foreign_lock = False\<rparr>"
  have a: "pushes g (deque_init g) (map Some ys) = Inr ?m"
    using pushes_fresh_with [of "[]" "map Some ys" g] assms by (simp add: init_fresh)
  have "length ys < 2 ^ 64" "length ys \<le> 2 ^ 8" using assms by simp_all
  then have b: "steals (length ys) ?m = Inr (map Some ys, ?e)"
    using steals_all [of "length ys" 8 "[]" ys ?rest 256] by (simp add: fresh_with_def)
  have "deque_pop_steal ?e = Inr (ABT_UNIT_NULL, ?e)"
    by (rule pop_steal_empty) simp
  then have c: "steals 1 ?e = Inr ([ABT_UNIT_NULL], ?e)" by simp
  have "steals (length ys + 1) ?m = Inr (map Some ys @ [ABT_UNIT_NULL], ?e)"
    using b c by (rule steals_add)
  with a show ?thesis by auto
qed

section \<open>Properties\<close>

text \<open>
  C1. The claim: in the slow path of the owner push the item is stored at
  \<open>array[t & mask]\<close> and \<open>T = t + 1\<close> is published before the lock is released, so every
  push increases \<open>T - H\<close> by one. The code stores the item but line 102 assigns nothing.
  At the failing input, a fresh deque after 255 pushes (\<open>H = 0\<close>, \<open>T = 255\<close>,
  \<open>mask = 255\<close>), the push of one more item takes the slow path, returns with the lock
  released and the item in its slot, and \<open>T - H\<close> is still 255.
\<close>

theorem slow_push_tail_not_published:
  "\<exists>m m'. pushes g (deque_init g) (map Some [0..<255]) = Inr m
     \<and> \<not> foreign_lock m
     \<and> tail_idx m - head_idx m = 255
     \<and> \<not> tail_idx m < head_idx m + mask_f m
     \<and> deque_push g m (Some 255) = Inr m'
     \<and> slot m' (tail_idx m' AND mask_f m') = Some 255
     \<and> \<not> foreign_lock m'
     \<and> tail_idx m' - head_idx m' = 255"
proof -
  let ?m = "fresh_with g (map Some [0..<255])"
  let ?m' = "\<lparr>unit_array = map Some [0..<255] @ Some 255 # map g [256..<512],
          array_length = 256, mask_f = 511, head_idx = 0, tail_idx = 255,
          foreign_lock = False\<rparr>"
  have a: "pushes g (deque_init g) (map Some [0..<255]) = Inr ?m" by (rule pushes_255)
  have b: "deque_push g ?m (Some 255) = Inr ?m'"
    using push_fresh_full [of "map Some [0..<255]" g "Some 255"] by (simp del: upt_rec_numeral)
  have c: "\<not> foreign_lock ?m" "tail_idx ?m - head_idx ?m = 255"
       "\<not> tail_idx ?m < head_idx ?m + mask_f ?m"
    by (simp_all add: fresh_with_def del: upt_rec_numeral)
  have d: "slot ?m' (tail_idx ?m' AND mask_f ?m') = Some 255"
    using nth_append_length [of "map Some [0..<255]" "Some 255" "map g [256..<512]"]
    by (simp add: slot_def del: upt_rec_numeral)
  have e: "\<not> foreign_lock ?m'" "tail_idx ?m' - head_idx ?m' = 255" by simp_all
  from a b c d e show ?thesis by blast
qed

text \<open>
  C2. The claim: after every completed operation on a deque reached from the initial
  state, \<open>0 \<le> T - H \<le> L\<close>, \<open>L\<close> is a power of two and every slot outside the live
  range \<open>[H, T)\<close> holds \<open>ABT_UNIT_NULL\<close>. At the failing input, 256 pushes into a fresh
  deque, the last push is complete and the state has \<open>H = 0\<close>, \<open>T = 255\<close> and the item
  255 in slot 255, which is outside \<open>[0, 255)\<close>. The block has 512 slots and the mask is
  511 while the field \<open>array_length\<close> still says 256.
\<close>

theorem slot_outside_live_range_not_null:
  "\<exists>m. pushes g (deque_init g) (map Some [0..<256]) = Inr m
     \<and> head_idx m = 0 \<and> tail_idx m = 255
     \<and> slot m 255 = Some 255
     \<and> mask_f m = 511 \<and> length (unit_array m) = 512 \<and> array_length m = 256"
proof -
  let ?m' = "\<lparr>unit_array = map Some [0..<255] @ Some 255 # map g [256..<512],
          array_length = 256, mask_f = 511, head_idx = 0, tail_idx = 255,
          foreign_lock = False\<rparr>"
  have d: "slot ?m' 255 = Some 255"
    using nth_append_length [of "map Some [0..<255]" "Some 255" "map g [256..<512]"]
    by (simp add: slot_def del: upt_rec_numeral)
  have e: "head_idx ?m' = 0" "tail_idx ?m' = 255" "mask_f ?m' = 511"
     "length (unit_array ?m') = 512" "array_length ?m' = 256" 
    by simp_all
  from pushes_256 [of g] d e show ?thesis by blast
qed

text \<open>
  C3. The claim: for an item that is not stored, \<open>deque_remove\<close> scans from \<open>T - 2\<close>
  down to \<open>H\<close>, terminates and returns not-found. At the failing input, a fresh deque
  (\<open>H = T = 0\<close>, every slot \<open>ABT_UNIT_NULL\<close>) and any item, the loop condition
  \<open>i >= m->head_idx\<close> is \<open>i >= 0\<close> on an unsigned counter, which always holds: whatever
  the fuel, the scan has not returned when the fuel is used up.
\<close>

theorem remove_absent_never_returns:
  "deque_remove fuel (deque_init null_block) (Some a) = None"
proof -
  let ?m = "deque_init null_block"
  have len: "length (unit_array ?m) = 256"
    by (simp add: deque_init_def ABTU_malloc_def INITIAL_LENGTH_def sizeof_ptr_def)
  have msk: "mask_f ?m = 255" by (simp add: deque_init_def INITIAL_LENGTH_def)
  have bound: "unat (idx AND (255::size_t)) < 256" for idx
  proof -
    have "unat (idx AND (255::size_t)) \<le> unat (255::size_t)"
      by (rule word_and_le1 [THEN word_le_nat_alt [THEN iffD1]])
    then show ?thesis by simp
  qed
  have ib: "in_block ?m (idx AND mask_f ?m)" for idx
    using bound [of idx] by (simp add: in_block_def len msk)
  have sl: "slot ?m (idx AND mask_f ?m) \<noteq> Some a" for idx
    using bound [of idx]
    by (simp add: slot_def msk)
       (simp add: deque_init_def ABTU_malloc_def INITIAL_LENGTH_def sizeof_ptr_def null_block_def
          del: upt_rec_numeral)
  have h: "head_idx ?m = 0" by (simp add: deque_init_def)
  have "remove_scan fuel ?m (Some a) (tail_idx ?m - 2) = None"
    using h ib sl by (rule remove_scan_no_exit)
  then show ?thesis
    using ib [of "tail_idx ?m - 1"] sl [of "tail_idx ?m - 1"] by (simp add: deque_remove_def)
qed

text \<open>
  C4. The claim: after pushing A, B, C, D, E and removing C, \<open>deque_remove\<close> returns
  success and five steals by one thief return A, B, D, E with the tombstone skipped.
  With the items 1 to 5: the remove returns \<open>ABT_SUCCESS\<close>, the first two steals return
  1 and 2, and the third steal finds the tombstone, executes \<open>continue\<close> with the
  foreign lock still held and spins on that lock: it never returns, and neither does the
  run of five steals.
\<close>

theorem steal_after_remove_deadlocks:
  "\<exists>m m1 m2.
     pushes g (deque_init g) [Some 1, Some 2, Some 3, Some 4, Some 5] = Inr m
     \<and> deque_remove (Suc (Suc fuel)) m (Some 3) = Some (Inr (ABT_SUCCESS, m1))
     \<and> steals 2 m1 = Inr ([Some 1, Some 2], m2)
     \<and> deque_pop_steal m2 = Inl Deadlock
     \<and> steals 5 m1 = Inl Deadlock"
proof -
  let ?rest = "map g [5..<256]"
  let ?m = "fresh_with g [Some 1, Some 2, Some 3, Some 4, Some 5]"
  let ?m1 = "\<lparr>unit_array = [Some 1, Some 2, ABT_UNIT_NULL, Some 4, Some 5] @ ?rest,
      array_length = 256, mask_f = 255, head_idx = 0, tail_idx = 5, foreign_lock = False\<rparr>"
  let ?m2 = "\<lparr>unit_array = [ABT_UNIT_NULL, ABT_UNIT_NULL, ABT_UNIT_NULL, Some 4, Some 5] @ ?rest,
      array_length = 256, mask_f = 255, head_idx = 2, tail_idx = 5, foreign_lock = False\<rparr>"
  have a: "pushes g (deque_init g) [Some 1, Some 2, Some 3, Some 4, Some 5] = Inr ?m"
    using pushes_fresh_with [of "[]" "[Some 1, Some 2, Some 3, Some 4, Some 5]" g]
    by (simp add: init_fresh)
  have len5: "length [Some 1, Some 2, Some 3, Some 4, Some (5::nat)] = 5" by simp
  have m: "?m = \<lparr>unit_array = [Some 1, Some 2, Some 3, Some 4, Some 5] @ ?rest,
      array_length = 256, mask_f = 255, head_idx = 0, tail_idx = 5, foreign_lock = False\<rparr>"
    unfolding fresh_with_def len5 by simp
  have b: "deque_remove (Suc (Suc fuel)) ?m (Some 3) = Some (Inr (ABT_SUCCESS, ?m1))"
    unfolding m
    by (simp add: deque_remove_def in_block_def slot_def set_slot_def
          ABTI_mutex_spinlock_def ABTI_mutex_unlock_def del: upt_rec_numeral)
  have w51: "\<not> (5::size_t) \<le> 1" by (simp add: word_le_nat_alt)
  have s1: "deque_pop_steal ?m1 = Inr (Some 1, 
      \<lparr>unit_array = [ABT_UNIT_NULL, Some 2, ABT_UNIT_NULL, Some 4, Some 5] @ ?rest,
      array_length = 256, mask_f = 255, head_idx = 1, tail_idx = 5, foreign_lock = False\<rparr>)"
    by (subst deque_pop_steal.simps)
       (simp add: in_block_def slot_def set_slot_def
          ABTI_mutex_spinlock_def ABTI_mutex_unlock_def del: upt_rec_numeral)
  have s2: "deque_pop_steal \<lparr>unit_array = [ABT_UNIT_NULL, Some 2, ABT_UNIT_NULL, Some 4, Some 5] @ ?rest,
      array_length = 256, mask_f = 255, head_idx = 1, tail_idx = 5, foreign_lock = False\<rparr>
     = Inr (Some 2, ?m2)"
    using w51 by (subst deque_pop_steal.simps)
       (simp add: in_block_def slot_def set_slot_def
          ABTI_mutex_spinlock_def ABTI_mutex_unlock_def del: upt_rec_numeral)
  have s3: "deque_pop_steal ?m2 = Inl Deadlock"
    by (subst deque_pop_steal.simps, simp add: in_block_def slot_def set_slot_def
          ABTI_mutex_spinlock_def ABTI_mutex_unlock_def del: upt_rec_numeral,
        subst deque_pop_steal.simps, simp add: ABTI_mutex_spinlock_def)
  have "steals (Suc (Suc 0)) ?m1 = Inr ([Some 1, Some 2], ?m2)"
    using s1 s2 by (simp del: upt_rec_numeral)
  then have c: "steals 2 ?m1 = Inr ([Some 1, Some 2], ?m2)"
    by (simp only: numeral_2_eq_2 [symmetric])
  have "steals (Suc (2 + 2)) ?m1 = Inl Deadlock"
    using c s3 by (rule steals_add_fault)
  then have d: "steals 5 ?m1 = Inl Deadlock"
    by (simp del: upt_rec_numeral)
  from a b c s3 d show ?thesis by blast
qed

text \<open>
  C5. The claim: pushing N distinct items and popping to exhaustion returns the N items
  in reverse push order, then \<open>ABT_UNIT_NULL\<close>. At the failing input \<open>N = 256\<close>, the
  items 0 to 255, the first pop returns 254, the 255 pops return 254 down to 0, and pop
  number 256 returns \<open>ABT_UNIT_NULL\<close>: item 255 is never returned.
\<close>

theorem pops_after_256_pushes:
  "\<exists>m m'. pushes g (deque_init g) (map Some [0..<256]) = Inr m
     \<and> pops 256 m = Inr (rev (map Some [0..<255]) @ [ABT_UNIT_NULL], m')"
proof -
  let ?rest = "Some 255 # map g [256..<512]"
  let ?m = "\<lparr>unit_array = map Some [0..<255] @ ?rest,
          array_length = 256, mask_f = 511, head_idx = 0, tail_idx = 255,
          foreign_lock = False\<rparr>"
  let ?e = "\<lparr>unit_array = replicate 255 ABT_UNIT_NULL @ ?rest,
          array_length = 256, mask_f = 511, head_idx = 0, tail_idx = 0,
          foreign_lock = False\<rparr>"
  have a: "pops 255 ?m = Inr (rev (map Some [0..<255]), ?e)"
    using pops_all [of "[0..<255]" 9 ?rest 256 False] by (simp del: upt_rec_numeral)
  have "deque_pop_local ?e = Inr (ABT_UNIT_NULL, ?e)"
    by (rule pop_local_none) simp
  then have b: "pops 1 ?e = Inr ([ABT_UNIT_NULL], ?e)" by simp
  have "pops (255 + 1) ?m = Inr (rev (map Some [0..<255]) @ [ABT_UNIT_NULL], ?e)"
    using a b by (rule pops_add)
  then have "pops 256 ?m = Inr (rev (map Some [0..<255]) @ [ABT_UNIT_NULL], ?e)"
    by (simp del: upt_rec_numeral)
  with pushes_256 [of g] show ?thesis by blast
qed

text \<open>
  C6. The claim: pushing N distinct items and stealing repeatedly returns the N items in
  push order, then \<open>ABT_UNIT_NULL\<close>. At the failing input \<open>N = 256\<close>, the items 0 to
  255, the first 255 steals return 0 to 254 and steal number 256 returns
  \<open>ABT_UNIT_NULL\<close> instead of item 255.
\<close>

theorem steals_after_256_pushes:
  "\<exists>m m'. pushes g (deque_init g) (map Some [0..<256]) = Inr m
     \<and> steals 256 m = Inr (map Some [0..<255] @ [ABT_UNIT_NULL], m')"
proof -
  let ?rest = "Some 255 # map g [256..<512]"
  let ?m = "\<lparr>unit_array = map Some [0..<255] @ ?rest,
          array_length = 256, mask_f = 511, head_idx = 0, tail_idx = 255,
          foreign_lock = False\<rparr>"
  let ?e = "\<lparr>unit_array = replicate 255 ABT_UNIT_NULL @ ?rest,
          array_length = 256, mask_f = 511, head_idx = 255, tail_idx = 255,
          foreign_lock = False\<rparr>"
  have a: "steals 255 ?m = Inr (map Some [0..<255], ?e)"
    using steals_all [of 255 9 "[]" "[0..<255]" ?rest 256] by (simp del: upt_rec_numeral)
  have "deque_pop_steal ?e = Inr (ABT_UNIT_NULL, ?e)"
    by (rule pop_steal_empty) simp
  then have b: "steals 1 ?e = Inr ([ABT_UNIT_NULL], ?e)" by simp
  have "steals (255 + 1) ?m = Inr (map Some [0..<255] @ [ABT_UNIT_NULL], ?e)"
    using a b by (rule steals_add)
  then have "steals 256 ?m = Inr (map Some [0..<255] @ [ABT_UNIT_NULL], ?e)"
    by (simp del: upt_rec_numeral)
  with pushes_256 [of g] show ?thesis by blast
qed

text \<open>
  C9. When the deque is empty (\<open>head_idx \<ge> tail_idx\<close>), \<open>deque_pop_local\<close> returns
  \<open>ABT_UNIT_NULL\<close> and the state it returns is the state it was given: head index,
  tail index, mask, array length, lock and every slot are unchanged.
\<close>

theorem pop_local_empty:
  "head_idx m \<ge> tail_idx m \<Longrightarrow> deque_pop_local m = Inr (ABT_UNIT_NULL, m)"
  by (simp add: deque_pop_local.simps)

theorem pop_local_empty_witness:
  "head_idx (deque_init null_block) \<ge> tail_idx (deque_init null_block)
   \<and> deque_pop_local (deque_init null_block) = Inr (ABT_UNIT_NULL, deque_init null_block)"
proof -
  have h: "head_idx (deque_init null_block) \<ge> tail_idx (deque_init null_block)"
    by (simp add: deque_init_def)
  show ?thesis using h pop_local_empty [OF h] by simp
qed

text \<open>
  C10. The claim: whenever the tail is below \<open>SIZE_MAX\<close> and \<open>tail < head + mask\<close>, the
  push changes only the slot \<open>tail & mask\<close> of the array and the tail index. At the
  failing input, a fresh deque after 514 pushes, both conditions hold, with \<open>H = 0\<close>,
  \<open>T = 512\<close> and mask 1023, but the block has 512 slots: the second grow allocated
  \<open>array_length << 1\<close> slots with \<open>array_length\<close> still 256, while the mask was doubled
  again. The fast path of the next push stores to slot 512, outside the block.
\<close>

theorem fast_push_past_block:
  "\<exists>m. pushes g (deque_init g) (map Some [0..<514]) = Inr m
     \<and> head_idx m = 0 \<and> tail_idx m = 512 \<and> mask_f m = 1023
     \<and> length (unit_array m) = 512 \<and> array_length m = 256
     \<and> tail_idx m \<noteq> SIZE_MAX
     \<and> tail_idx m < head_idx m + mask_f m
     \<and> unat (tail_idx m AND mask_f m) = 512
     \<and> deque_push g m (Some 514) = Inl OutOfBounds"
proof -
  let ?s = "\<lparr>unit_array = map Some [0..<255] @ Some 255 # map g [256..<512],
          array_length = 256, mask_f = 511, head_idx = 0, tail_idx = 255,
          foreign_lock = False\<rparr>"
  have s0: "shape ?s 255 9 512" by (simp add: shape_def del: upt_rec_numeral)
  have "\<exists>m'. pushes g ?s (map Some [256..<512]) = Inr m'
          \<and> shape m' (255 + length (map Some [256..<512])) 9 512"
    using s0 by (intro pushes_fast_shape) simp_all
  then obtain m1 where m1: "pushes g ?s (map Some [256..<512]) = Inr m1" "shape m1 511 9 512"
    by auto
  obtain m2 where m2: "deque_push g m1 (Some 512) = Inr m2" "shape m2 511 10 512"
    using push_grow_511 [OF m1(2)] by blast
  have "\<exists>m'. deque_push g m2 (Some 513) = Inr m' \<and> shape m' (Suc 511) 10 512"
    using m2(2) by (intro push_fast_shape) simp_all
  then obtain m3 where m3: "deque_push g m2 (Some 513) = Inr m3" "shape m3 512 10 512"
    by auto
  have "pushes g (deque_init g) (map Some [0..<514])
          = pushes g ?s (map Some [256..<512] @ [Some 512, Some 513])"
    using pushes_append [OF pushes_256, of g "map Some [256..<512] @ [Some 512, Some 513]"]
    by (simp add: upt_514 del: upt_rec_numeral)
  also have "\<dots> = pushes g m1 [Some 512, Some 513]"
    using m1(1) by (rule pushes_append)
  also have "\<dots> = Inr m3" using m2(1) m3(1) by simp
  finally have a: "pushes g (deque_init g) (map Some [0..<514]) = Inr m3" .
  have f: "head_idx m3 = 0" "tail_idx m3 = 512" "mask_f m3 = 1023"
      "length (unit_array m3) = 512" "array_length m3 = 256" "\<not> foreign_lock m3"
    using m3(2) by (simp_all add: shape_def)
  have b: "tail_idx m3 \<noteq> SIZE_MAX" "tail_idx m3 < head_idx m3 + mask_f m3"
      "unat (tail_idx m3 AND mask_f m3) = 512"
    by (simp_all add: f SIZE_MAX_def)
  have c: "deque_push g m3 (Some 514) = Inl OutOfBounds"
    by (simp add: deque_push_def wrap_guard_def f SIZE_MAX_def in_block_def)
  from a f b c show ?thesis by blast
qed

text \<open>
  C7. The claim: when push is called with \<open>T = SIZE_MAX\<close> the wrap guard maps \<open>H\<close> to
  \<open>H & mask\<close> and \<open>T\<close> to \<open>T & mask\<close> and keeps the live count, the pushed item is
  stored, and the local pop that follows returns it. At the failing input
  \<open>count_at_max\<close> (\<open>T = SIZE_MAX\<close>, \<open>T - H = 255 = mask\<close>) the guard gives \<open>H' = 0\<close>,
  \<open>T' = 255\<close> with the count kept; the push goes on along the slow path, grows, stores
  the item in slot 255 and, line 102 assigning nothing, leaves the tail index at 255:
  the count is still 255 and the pop that follows returns item 254, not the item pushed.
\<close>

theorem push_at_max_loses_item:
  "\<not> foreign_lock count_at_max
   \<and> tail_idx count_at_max = SIZE_MAX
   \<and> tail_idx count_at_max - head_idx count_at_max = 255
   \<and> wrap_guard count_at_max = Inr (count_at_max\<lparr>head_idx := 0, tail_idx := 255\<rparr>, 255)
   \<and> deque_push null_block count_at_max (Some 255) = Inr after_256_pushes
   \<and> slot after_256_pushes 255 = Some 255
   \<and> tail_idx after_256_pushes - head_idx after_256_pushes = 255
   \<and> (\<exists>m. deque_pop_local after_256_pushes = Inr (Some 254, m))"
proof -
  let ?us = "map Some [0..<255]"
  let ?c = "count_at_max\<lparr>head_idx := 0, tail_idx := 255\<rparr>"
  have f: "\<not> foreign_lock count_at_max" "tail_idx count_at_max = SIZE_MAX"
      "head_idx count_at_max = SIZE_MAX - 255" "mask_f count_at_max = 255"
    by (simp_all add: count_at_max_def)
  have d: "tail_idx count_at_max - head_idx count_at_max = 255"
    by (simp add: f)
  have w: "wrap_guard count_at_max = Inr (?c, 255)"
    using wrap_guard_at_max [OF f(1,2)] by (simp add: f SIZE_MAX_def)
  have u1: "[255..<256] = [255::nat]" by (simp add: upt_rec)
  have c: "?c = fresh_with null_block ?us"
    by (simp add: count_at_max_def fresh_with_def u1 null_block_def del: upt_rec_numeral)
  have "deque_push null_block count_at_max (Some 255) = deque_push null_block ?c (Some 255)"
    by (rule push_after_guard) (simp_all add: w SIZE_MAX_def)
  also have "\<dots> = Inr after_256_pushes"
    unfolding c after_256_pushes_def
    using push_fresh_full [of ?us null_block "Some 255"] by (simp del: upt_rec_numeral)
  finally have p: "deque_push null_block count_at_max (Some 255) = Inr after_256_pushes" .
  have s: "slot after_256_pushes 255 = Some 255"
    using nth_append_length [of ?us "Some 255" "map null_block [256..<512]"]
    by (simp add: slot_def after_256_pushes_def del: upt_rec_numeral)
  have t: "tail_idx after_256_pushes - head_idx after_256_pushes = 255"
    by (simp add: after_256_pushes_def)
  have "\<exists>m. deque_pop_local after_256_pushes = Inr (Some 254, m)"
    using pop_local_top [of "map Some [0..<254]" 9 254 "Some 255 # map null_block [256..<512]"
        256 False]
    by (simp add: after_256_pushes_def upt_254_255 del: upt_rec_numeral)
  with f(1,2) d w p s t show ?thesis by simp
qed

text \<open>
  C8. The claim: pushing the 256 items 0 to 255 into a fresh deque and then item 256
  grows the deque to \<open>L = 512\<close> with all 257 items present, and the 257 local pops
  that follow return 256, 255, ..., 0. On an all-NULL block the 256 pushes end in
  \<open>after_256_pushes\<close>, where item 255 sits in slot 255 and the tail index is 255; the
  push of item 256 overwrites it, and 256 items are live. The first two pops return 256
  and 254, and the 257 pops return 256, 254, ..., 0 and \<open>ABT_UNIT_NULL\<close>: item 255 is
  never returned.
\<close>

theorem grow_scenario_loses_item:
  "pushes null_block (deque_init null_block) (map Some [0..<256]) = Inr after_256_pushes
   \<and> deque_push null_block after_256_pushes (Some 256) = Inr after_257_pushes
   \<and> tail_idx after_257_pushes - head_idx after_257_pushes = 256
   \<and> pops 2 after_257_pushes = Inr ([Some 256, Some 254], after_two_pops)
   \<and> (\<exists>m. pops 257 after_257_pushes
             = Inr (Some 256 # rev (map Some [0..<255]) @ [ABT_UNIT_NULL], m))"
proof -
  let ?rest = "map null_block [256..<512]"
  let ?x = "\<lparr>unit_array = map Some [0..<255] @ ABT_UNIT_NULL # ?rest,
         array_length = 256, mask_f = 511, head_idx = 0, tail_idx = 255,
         foreign_lock = False\<rparr>"
  let ?e = "\<lparr>unit_array = replicate 255 ABT_UNIT_NULL @ ABT_UNIT_NULL # ?rest,
         array_length = 256, mask_f = 511, head_idx = 0, tail_idx = 0,
         foreign_lock = False\<rparr>"
  have a: "pushes null_block (deque_init null_block) (map Some [0..<256]) = Inr after_256_pushes"
    unfolding after_256_pushes_def by (rule pushes_256)
  have f: "tail_idx after_256_pushes = 255" "head_idx after_256_pushes = 0"
      "mask_f after_256_pushes = 511" "length (unit_array after_256_pushes) = 512"
    by (simp_all add: after_256_pushes_def)
  have upd: "(map Some [0..<255] @ Some 255 # ?rest)[255 := Some 256]
               = map Some [0..<255] @ Some 256 # ?rest"
    using list_update_length [of "map Some [0..<255]" "Some 255" ?rest "Some 256"]
    by (simp del: upt_rec_numeral)
  have b: "deque_push null_block after_256_pushes (Some 256) = Inr after_257_pushes"
  proof -
    have "deque_push null_block after_256_pushes (Some 256) =
       Inr (after_256_pushes\<lparr>unit_array :=
              (unit_array after_256_pushes)
                [unat (tail_idx after_256_pushes AND mask_f after_256_pushes) := Some 256],
            tail_idx := tail_idx after_256_pushes + 1\<rparr>)"
      by (rule push_fast_path) (simp_all add: f SIZE_MAX_def in_block_def)
    also have "\<dots> = Inr after_257_pushes"
      using upd by (simp add: after_256_pushes_def after_257_pushes_def
          del: upt_rec_numeral)
    finally show ?thesis .
  qed
  have t: "tail_idx after_257_pushes - head_idx after_257_pushes = 256"
    by (simp add: after_257_pushes_def)
  have p1: "deque_pop_local after_257_pushes = Inr (Some 256, ?x)"
    using pop_local_top [of "map Some [0..<255]" 9 256 ?rest 256 False]
    by (simp add: after_257_pushes_def del: upt_rec_numeral)
  have p2: "deque_pop_local ?x = Inr (Some 254, after_two_pops)"
    using pop_local_top [of "map Some [0..<254]" 9 254 "ABT_UNIT_NULL # ?rest" 256 False]
    by (simp add: after_two_pops_def upt_254_255 del: upt_rec_numeral)
  have "pops (Suc (Suc 0)) after_257_pushes = Inr ([Some 256, Some 254], after_two_pops)"
    using p1 p2 by simp
  then have c: "pops 2 after_257_pushes = Inr ([Some 256, Some 254], after_two_pops)"
    by (simp only: numeral_2_eq_2 [symmetric])
  have q1: "pops 1 after_257_pushes = Inr ([Some 256], ?x)" using p1 by simp
  have q2: "pops 255 ?x = Inr (rev (map Some [0..<255]), ?e)"
    using pops_all [of "[0..<255]" 9 "ABT_UNIT_NULL # ?rest" 256 False]
    by (simp del: upt_rec_numeral)
  have "deque_pop_local ?e = Inr (ABT_UNIT_NULL, ?e)"
    by (rule pop_local_none) simp
  then have q3: "pops 1 ?e = Inr ([ABT_UNIT_NULL], ?e)" by simp
  have q4: "pops (255 + 1) ?x = Inr (rev (map Some [0..<255]) @ [ABT_UNIT_NULL], ?e)"
    using q2 q3 by (rule pops_add)
  have "pops (1 + (255 + 1)) after_257_pushes
      = Inr ([Some 256] @ rev (map Some [0..<255]) @ [ABT_UNIT_NULL], ?e)"
    using q1 q4 by (rule pops_add)
  then have d: "\<exists>m. pops 257 after_257_pushes
             = Inr (Some 256 # rev (map Some [0..<255]) @ [ABT_UNIT_NULL], m)"
    by (simp del: upt_rec_numeral)
  from a b t c d show ?thesis by simp
qed

end
